theory Spec2Isabelle
  imports Main
begin

section \<open>The engine of floyd\_warshall.py\<close>

text \<open>
  Python integers are modelled as \<open>int\<close>. The class \<open>FloydWarshall\<close> has the fields
  \<open>_n\<close>, \<open>inf\<close>, \<open>_dist\<close> and \<open>_needs_solve\<close>; the matrix is a list of rows. Weights and
  the sentinel are integers here (the floating point default \<open>float('inf')\<close> is outside
  the model). A method takes the engine and returns its outcome together with the engine
  as the call leaves it, so that a raise after a mutation would be visible.
\<close>

datatype error = AssertionError | RuntimeError

record engine =
  fw_n :: int
  fw_inf :: int
  fw_dist :: "int list list"
  fw_needs_solve :: bool

text \<open>\<open>__init__\<close>: \<open>assert inf > 0\<close>, then 0 on the diagonal and \<open>inf\<close> elsewhere.\<close>

definition init :: "int \<Rightarrow> int \<Rightarrow> error + engine" where
  "init num_v infty =
     (if \<not> 0 < infty then Inl AssertionError
      else Inr \<lparr>fw_n = num_v, fw_inf = infty,
                fw_dist = map (\<lambda>i. map (\<lambda>j. if i = j then 0 else infty) [0..<nat num_v])
                              [0..<nat num_v],
                fw_needs_solve = False\<rparr>)"

text \<open>\<open>dist[i][j] = x\<close> on the list of rows.\<close>

definition set_entry :: "int list list \<Rightarrow> nat \<Rightarrow> nat \<Rightarrow> int \<Rightarrow> int list list" where
  "set_entry d i j x = d[i := (d ! i)[j := x]]"

text \<open>
  The propagation loops of \<open>add_edge\<close> (lines 128--137): the body of the loop over \<open>j\<close>,
  the body of the loop over \<open>i\<close> (which reads \<open>dist[i][u]\<close> once, into \<open>tmp\<close>), and the
  whole double loop.
\<close>

definition prop_j :: "int \<Rightarrow> nat \<Rightarrow> nat \<Rightarrow> int \<Rightarrow> nat \<Rightarrow> int list list \<Rightarrow> int list list" where
  "prop_j infty v i tmp j d =
     (if d ! v ! j = infty then d
      else let c = tmp + d ! v ! j in
           if c < d ! i ! j then set_entry d i j c else d)"

definition prop_i :: "int \<Rightarrow> nat \<Rightarrow> nat \<Rightarrow> nat \<Rightarrow> int \<Rightarrow> nat \<Rightarrow> int list list \<Rightarrow> int list list" where
  "prop_i infty n u v weight i d =
     (if d ! i ! u = infty then d
      else let tmp = d ! i ! u + weight in fold (prop_j infty v i tmp) [0..<n] d)"

definition propagate :: "int \<Rightarrow> nat \<Rightarrow> nat \<Rightarrow> nat \<Rightarrow> int \<Rightarrow> int list list \<Rightarrow> int list list" where
  "propagate infty n u v weight d = fold (prop_i infty n u v weight) [0..<n] d"

text \<open>
  \<open>add_edge\<close>: the three assertions, the stale check, the no-op return, the relaxation of
  the direct cost, and then either the stale mark or the propagation.
\<close>

definition add_edge :: "engine \<Rightarrow> int \<Rightarrow> int \<Rightarrow> int \<Rightarrow> bool \<Rightarrow> (error + unit) \<times> engine" where
  "add_edge e u v weight update_dists =
     (if \<not> (0 \<le> u \<and> u < fw_n e) then (Inl AssertionError, e)
      else if \<not> (0 \<le> v \<and> v < fw_n e) then (Inl AssertionError, e)
      else if \<not> weight < fw_inf e then (Inl AssertionError, e)
      else if update_dists \<and> fw_needs_solve e then (Inl RuntimeError, e)
      else if weight \<ge> fw_dist e ! nat u ! nat v then (Inr (), e)
      else let e1 = e\<lparr>fw_dist := set_entry (fw_dist e) (nat u) (nat v) weight\<rparr> in
           if \<not> update_dists then (Inr (), e1\<lparr>fw_needs_solve := True\<rparr>)
           else (Inr (), e1\<lparr>fw_dist := propagate (fw_inf e1) (nat (fw_n e1)) (nat u) (nat v)
                                                    weight (fw_dist e1)\<rparr>))"

text \<open>
  The loops of \<open>solve\<close> (lines 158--167): over \<open>j\<close>, over \<open>i\<close> (which reads \<open>dist[i][k]\<close>
  once, into \<open>dik\<close>), over \<open>k\<close>.
\<close>

definition solve_j :: "int \<Rightarrow> nat \<Rightarrow> nat \<Rightarrow> int \<Rightarrow> nat \<Rightarrow> int list list \<Rightarrow> int list list" where
  "solve_j infty k i dik j d =
     (if d ! k ! j = infty then d
      else let c = dik + d ! k ! j in
           if c < d ! i ! j then set_entry d i j c else d)"

definition solve_i :: "int \<Rightarrow> nat \<Rightarrow> nat \<Rightarrow> nat \<Rightarrow> int list list \<Rightarrow> int list list" where
  "solve_i infty n k i d =
     (if d ! i ! k = infty then d
      else let dik = d ! i ! k in fold (solve_j infty k i dik) [0..<n] d)"

definition solve_k :: "int \<Rightarrow> nat \<Rightarrow> nat \<Rightarrow> int list list \<Rightarrow> int list list" where
  "solve_k infty n k d = fold (solve_i infty n k) [0..<n] d"

definition floyd :: "int \<Rightarrow> nat \<Rightarrow> int list list \<Rightarrow> int list list" where
  "floyd infty n d = fold (solve_k infty n) [0..<n] d"

text \<open>\<open>solve\<close> returns the matrix; the second component is the engine afterwards.\<close>

definition solve :: "engine \<Rightarrow> (error + int list list) \<times> engine" where
  "solve e =
     (if \<not> 0 < fw_inf e then (Inl AssertionError, e)
      else if \<not> fw_needs_solve e then (Inr (fw_dist e), e)
      else let e' = e\<lparr>fw_dist := floyd (fw_inf e) (nat (fw_n e)) (fw_dist e),
                        fw_needs_solve := False\<rparr>
           in (Inr (fw_dist e'), e'))"

text \<open>The property \<open>dist\<close> and \<open>has_negative_cycle\<close>.\<close>

definition dist :: "engine \<Rightarrow> (error + int list list) \<times> engine" where
  "dist e = (if fw_needs_solve e then (Inl RuntimeError, e) else (Inr (fw_dist e), e))"

definition has_negative_cycle :: "engine \<Rightarrow> (error + bool) \<times> engine" where
  "has_negative_cycle e =
     (if fw_needs_solve e then (Inl RuntimeError, e)
      else (Inr (list_ex (\<lambda>v. fw_dist e ! v ! v < 0) [0..<nat (fw_n e)]), e))"

text \<open>
  A well-formed engine: the matrix is \<open>_n\<close> by \<open>_n\<close>, as the constructor builds it and
  every method leaves it.
\<close>

definition square :: "nat \<Rightarrow> int list list \<Rightarrow> bool" where
  "square n d \<longleftrightarrow> length d = n \<and> list_all (\<lambda>r. length r = n) d"

definition well_formed :: "engine \<Rightarrow> bool" where
  "well_formed e \<longleftrightarrow> square (nat (fw_n e)) (fw_dist e)"

text \<open>
  What one run of an inner loop makes of row \<open>ri\<close>, given the row \<open>rk\<close> it reads and the
  value \<open>a\<close> it holds in \<open>dik\<close> (or \<open>tmp\<close>): used to describe the loops, not part of
  the source.
\<close>

definition row_relax :: "int \<Rightarrow> int \<Rightarrow> int list \<Rightarrow> int list \<Rightarrow> int list" where
  "row_relax infty a rk ri =
     map (\<lambda>(x, y). if x = infty then y else if a + x < y then a + x else y) (zip rk ri)"

text \<open>
  A caller's sequence of method calls. A call that raises leaves the engine as the method
  left it, and the caller goes on with the next call.
\<close>

datatype call = InsertEdge int int int bool | Solve | Distances | HasNegativeCycle

fun step :: "engine \<Rightarrow> call \<Rightarrow> engine" where
  "step e (InsertEdge u v w p) = snd (add_edge e u v w p)"
| "step e Solve = snd (solve e)"
| "step e Distances = snd (dist e)"
| "step e HasNegativeCycle = snd (has_negative_cycle e)"

definition run :: "engine \<Rightarrow> call list \<Rightarrow> engine" where
  "run e cs = foldl step e cs"

text \<open>
  The propagation as the specification describes its result: starting from the matrix in
  which \<open>distance[u][v]\<close> is already \<open>w\<close>, every entry \<open>(i, j)\<close> with
  \<open>distance[i][u]\<close> and \<open>distance[v][j]\<close> different from the sentinel becomes
  \<open>min(distance[i][j], distance[i][u] + w + distance[v][j])\<close>, and no other entry changes.
\<close>

definition relax_spec :: "int \<Rightarrow> nat \<Rightarrow> nat \<Rightarrow> nat \<Rightarrow> int \<Rightarrow> int list list \<Rightarrow> int list list" where
  "relax_spec infty n u v w d =
     map (\<lambda>i. map (\<lambda>j. if d ! i ! u \<noteq> infty \<and> d ! v ! j \<noteq> infty
                         then min (d ! i ! j) (d ! i ! u + w + d ! v ! j)
                         else d ! i ! j) [0..<n]) [0..<n]"

text \<open>
  The same description read as a loop over the pairs \<open>(i, j)\<close> that reads
  \<open>distance[i][u]\<close> and \<open>distance[v][j]\<close> anew at every pair.
\<close>

definition relax_seq_step ::
  "int \<Rightarrow> nat \<Rightarrow> nat \<Rightarrow> int \<Rightarrow> nat \<Rightarrow> nat \<Rightarrow> int list list \<Rightarrow> int list list" where
  "relax_seq_step infty u v w i j d =
     (if d ! i ! u \<noteq> infty \<and> d ! v ! j \<noteq> infty \<and> d ! i ! u + w + d ! v ! j < d ! i ! j
      then set_entry d i j (d ! i ! u + w + d ! v ! j) else d)"

definition relax_seq :: "int \<Rightarrow> nat \<Rightarrow> nat \<Rightarrow> nat \<Rightarrow> int \<Rightarrow> int list list \<Rightarrow> int list list" where
  "relax_seq infty n u v w d =
     fold (\<lambda>i. fold (relax_seq_step infty u v w i) [0..<n]) [0..<n] d"

section \<open>Shortest walks over the inserted edges\<close>

text \<open>
  The inserted edges form a set of triples (source, destination, weight); parallel edges
  may coexist, and a shortest walk uses the lightest of them. A walk is a list of edges,
  each starting where the previous one ends; the empty walk joins a vertex to itself.
\<close>

type_synonym edge = "nat \<times> nat \<times> int"

abbreviation src :: "edge \<Rightarrow> nat" where "src e \<equiv> fst e"
abbreviation dst :: "edge \<Rightarrow> nat" where "dst e \<equiv> fst (snd e)"
abbreviation wt :: "edge \<Rightarrow> int" where "wt e \<equiv> snd (snd e)"

fun walk :: "edge set \<Rightarrow> nat \<Rightarrow> edge list \<Rightarrow> nat \<Rightarrow> bool" where
  "walk S i [] j \<longleftrightarrow> i = j"
| "walk S i (e # P) j \<longleftrightarrow> src e = i \<and> e \<in> S \<and> walk S (dst e) P j"

fun wsum :: "edge list \<Rightarrow> int" where
  "wsum [] = 0"
| "wsum (e # P) = wt e + wsum P"

definition shortest :: "edge set \<Rightarrow> nat \<Rightarrow> edge list \<Rightarrow> nat \<Rightarrow> bool" where
  "shortest S i P j \<longleftrightarrow> walk S i P j \<and> (\<forall>Q. walk S i Q j \<longrightarrow> wsum P \<le> wsum Q)"










definition in_range :: "nat \<Rightarrow> edge set \<Rightarrow> bool" where
  "in_range n S \<longleftrightarrow> (\<forall>e\<in>S. src e < n \<and> dst e < n)"


section \<open>Basic facts about the methods\<close>

lemma run_Nil: "run e [] = e" by (simp add: run_def)
lemma run_Cons: "run e (c # cs) = run (step e c) cs" by (simp add: run_def)
lemma run_append: "run e (cs @ ds) = run (run e cs) ds" by (simp add: run_def)

lemma add_edge_n_inf:
  "fw_n (snd (add_edge e u v w p)) = fw_n e \<and> fw_inf (snd (add_edge e u v w p)) = fw_inf e"
  by (simp add: add_edge_def Let_def)

lemma solve_n_inf: "fw_n (snd (solve e)) = fw_n e \<and> fw_inf (snd (solve e)) = fw_inf e"
  by (simp add: solve_def Let_def)

lemma step_n_inf: "fw_n (step e c) = fw_n e \<and> fw_inf (step e c) = fw_inf e"
  by (cases c) (simp_all add: add_edge_n_inf solve_n_inf dist_def has_negative_cycle_def)

lemma run_n_inf: "fw_n (run e cs) = fw_n e \<and> fw_inf (run e cs) = fw_inf e"
  by (induction cs arbitrary: e) (simp_all add: run_Nil run_Cons step_n_inf)

lemma step_stale: "fw_needs_solve e \<Longrightarrow> c \<noteq> Solve \<Longrightarrow> fw_needs_solve (step e c)"
  by (cases c) (simp_all add: add_edge_def dist_def has_negative_cycle_def Let_def)

lemma run_stale: "fw_needs_solve e \<Longrightarrow> Solve \<notin> set cs \<Longrightarrow> fw_needs_solve (run e cs)"
  by (induction cs arbitrary: e) (auto simp: run_Nil run_Cons step_stale)


lemma neg_cycle_example_3:
  assumes "1 < infty"
  shows "fst (has_negative_cycle (run (projr (init 3 infty))
         [InsertEdge 0 1 1 False, InsertEdge 1 2 1 False, InsertEdge 2 0 (- 3) False, Solve]))
        = Inr True"
proof (cases "infty = 2")
  case True
  show ?thesis unfolding True by code_simp
next
  case False
  with assms have "2 < infty" by simp
  then show ?thesis
    by (simp add: run_def init_def add_edge_def set_entry_def solve_def floyd_def solve_k_def
        solve_i_def solve_j_def has_negative_cycle_def upt_rec Let_def)
qed

lemma pos_cycle_example_3:
  assumes "1 < infty"
  shows "fst (has_negative_cycle (run (projr (init 3 infty))
         [InsertEdge 0 1 1 False, InsertEdge 1 2 1 False, InsertEdge 2 0 1 False, Solve]))
        = Inr False"
proof (cases "infty = 2")
  case True
  show ?thesis unfolding True by code_simp
next
  case False
  with assms have "2 < infty" by simp
  then show ?thesis
    by (simp add: run_def init_def add_edge_def set_entry_def solve_def floyd_def solve_k_def
        solve_i_def solve_j_def has_negative_cycle_def upt_rec Let_def)
qed

section \<open>The loops in closed form and their invariants\<close>

lemma square_nth: "square n d \<Longrightarrow> i < n \<Longrightarrow> length (d ! i) = n"
  by (simp add: square_def list_all_length)

lemma square_len: "square n d \<Longrightarrow> length d = n"
  by (simp add: square_def)

lemma square_update: "square n d \<Longrightarrow> (i < n \<Longrightarrow> length r = n) \<Longrightarrow> square n (d[i := r])"
  by (cases "i < length d")
     (auto simp: square_def list_all_length nth_list_update list_update_beyond not_less)

lemma set_entry_square: "square n d \<Longrightarrow> square n (set_entry d i j x)"
  unfolding set_entry_def
  by (rule square_update) (simp_all add: square_nth)

lemma set_entry_nth:
  "square n d \<Longrightarrow> i < n \<Longrightarrow> j < n \<Longrightarrow> a < n \<Longrightarrow> b < n \<Longrightarrow>
   set_entry d i j x ! a ! b = (if a = i \<and> b = j then x else d ! a ! b)"
  by (auto simp: square_def set_entry_def list_all_length nth_list_update)

lemma prop_j_solve_j: "prop_j = solve_j"
  by (intro ext) (simp add: prop_j_def solve_j_def)

lemma fold_upt_inv:
  assumes "P 0 s" and "\<And>m t. m < n \<Longrightarrow> P m t \<Longrightarrow> P (Suc m) (f m t)"
  shows "P n (fold f [0..<n] s)"
  using assms
proof (induction n)
  case 0
  then show ?case by simp
next
  case (Suc n)
  have "P n (fold f [0..<n] s)"
    by (rule Suc.IH) (use Suc.prems in auto)
  then show ?case using Suc.prems(2) [of n] by simp
qed

lemma length_row_relax: "length (row_relax infty a rk ri) = min (length rk) (length ri)"
  by (simp add: row_relax_def)

lemma nth_row_relax:
  "j < length rk \<Longrightarrow> j < length ri \<Longrightarrow>
   row_relax infty a rk ri ! j =
     (if rk ! j = infty then ri ! j else if a + rk ! j < ri ! j then a + rk ! j else ri ! j)"
  by (simp add: row_relax_def)

text \<open>One run of the loop over \<open>j\<close>, in closed form.\<close>

lemma fold_solve_j:
  assumes sq: "square n d" and i: "i < n" and k: "k < n"
  shows "fold (solve_j infty k i a) [0..<n] d = d[i := row_relax infty a (d ! k) (d ! i)]"
proof -
  let ?X = "row_relax infty a (d ! k) (d ! i)"
  have lX: "length ?X = n" using sq i k by (simp add: length_row_relax square_nth)
  have li: "length (d ! i) = n" and lk: "length (d ! k) = n" and ld: "length d = n"
    using sq i k by (simp_all add: square_nth square_len)
  have "m \<le> n \<Longrightarrow> fold (solve_j infty k i a) [0..<m] d = d[i := take m ?X @ drop m (d ! i)]" for m
  proof (induction m)
    case 0
    then show ?case by simp
  next
    case (Suc m)
    let ?s = "d[i := take m ?X @ drop m (d ! i)]"
    have m: "m < n" using Suc.prems by simp
    have IH: "fold (solve_j infty k i a) [0..<m] d = ?s" using Suc by simp
    have rk: "?s ! k ! m = d ! k ! m"
      using m i k ld li lX by (cases "k = i") (simp_all add: nth_append)
    have ri: "?s ! i ! m = d ! i ! m"
      using m i ld li lX by (simp add: nth_append)
    have upd: "(take m ?X @ drop m (d ! i))[m := ?X ! m] = take (Suc m) ?X @ drop (Suc m) (d ! i)"
      using m li lX
      by (intro nth_equalityI) (auto simp: nth_append nth_list_update less_Suc_eq)
    have same: "d ! i ! m = ?X ! m \<Longrightarrow>
        take m ?X @ drop m (d ! i) = take (Suc m) ?X @ drop (Suc m) (d ! i)"
      using m li lX
      by (intro nth_equalityI) (auto simp: nth_append less_Suc_eq)
    have Xm: "?X ! m = (if d ! k ! m = infty then d ! i ! m
                        else if a + d ! k ! m < d ! i ! m then a + d ! k ! m else d ! i ! m)"
      using m li lk by (simp add: nth_row_relax)
    have "solve_j infty k i a m ?s = d[i := take (Suc m) ?X @ drop (Suc m) (d ! i)]"
    proof (cases "d ! k ! m \<noteq> infty \<and> a + d ! k ! m < d ! i ! m")
      case True
      then have "solve_j infty k i a m ?s = set_entry ?s i m (?X ! m)"
        using rk ri Xm by (simp add: solve_j_def Let_def)
      also have "\<dots> = d[i := take (Suc m) ?X @ drop (Suc m) (d ! i)]"
        using i ld upd by (simp add: set_entry_def)
      finally show ?thesis .
    next
      case False
      then have "solve_j infty k i a m ?s = ?s"
        using rk ri by (auto simp: solve_j_def Let_def)
      moreover have "d ! i ! m = ?X ! m" using False Xm by auto
      ultimately show ?thesis using same by simp
    qed
    then show ?case using IH by simp
  qed
  from this [of n] show ?thesis using lX li by simp
qed

lemma solve_i_closed:
  assumes "square n d" "i < n" "k < n"
  shows "solve_i infty n k i d =
           (if d ! i ! k = infty then d else d[i := row_relax infty (d ! i ! k) (d ! k) (d ! i)])"
  using assms by (simp add: solve_i_def Let_def fold_solve_j)

lemma prop_i_closed:
  assumes "square n d" "i < n" "v < n"
  shows "prop_i infty n u v w i d =
           (if d ! i ! u = infty then d
            else d[i := row_relax infty (d ! i ! u + w) (d ! v) (d ! i)])"
  using assms by (simp add: prop_i_def Let_def prop_j_solve_j fold_solve_j)

lemma relax_square:
  assumes "square n d" "i < n" "k < n"
  shows "square n (d[i := row_relax infty a (d ! k) (d ! i)])"
  using assms by (intro square_update) (simp_all add: length_row_relax square_nth)

lemma relax_nth:
  assumes "square n d" "i < n" "k < n" "p < n" "q < n"
  shows "d[i := row_relax infty a (d ! k) (d ! i)] ! p ! q =
           (if p = i \<and> d ! k ! q \<noteq> infty \<and> a + d ! k ! q < d ! i ! q
            then a + d ! k ! q else d ! p ! q)"
proof (cases "p = i")
  case True
  have "d[i := row_relax infty a (d ! k) (d ! i)] ! i = row_relax infty a (d ! k) (d ! i)"
    using assms by (simp add: square_len)
  then show ?thesis using assms True by (simp add: square_nth nth_row_relax)
next
  case False
  then show ?thesis by simp
qed

lemma solve_i_square:
  "square n d \<Longrightarrow> i < n \<Longrightarrow> k < n \<Longrightarrow> square n (solve_i infty n k i d)"
  by (simp add: solve_i_closed relax_square)

lemma solve_i_nth:
  assumes "square n d" "i < n" "k < n" "p < n" "q < n"
  shows "solve_i infty n k i d ! p ! q =
           (if p = i \<and> d ! i ! k \<noteq> infty \<and> d ! k ! q \<noteq> infty \<and> d ! i ! k + d ! k ! q < d ! i ! q
            then d ! i ! k + d ! k ! q else d ! p ! q)"
  using assms by (simp add: solve_i_closed relax_nth)

lemma prop_i_square:
  "square n d \<Longrightarrow> i < n \<Longrightarrow> v < n \<Longrightarrow> square n (prop_i infty n u v w i d)"
  by (simp add: prop_i_closed relax_square)

lemma prop_i_nth:
  assumes "square n d" "i < n" "v < n" "p < n" "q < n"
  shows "prop_i infty n u v w i d ! p ! q =
           (if p = i \<and> d ! i ! u \<noteq> infty \<and> d ! v ! q \<noteq> infty \<and>
               d ! i ! u + w + d ! v ! q < d ! i ! q
            then d ! i ! u + w + d ! v ! q else d ! p ! q)"
  using assms by (simp add: prop_i_closed relax_nth)

text \<open>Invariants of the loop over \<open>i\<close>.\<close>

lemma solve_k_square:
  assumes "square n d" "k < n"
  shows "square n (solve_k infty n k d)"
  unfolding solve_k_def
  by (rule fold_upt_inv [where P = "\<lambda>m s. square n s"]) (simp_all add: assms solve_i_square)

lemma propagate_square:
  assumes "square n d" "v < n"
  shows "square n (propagate infty n u v w d)"
  unfolding propagate_def
  by (rule fold_upt_inv [where P = "\<lambda>m s. square n s"]) (simp_all add: assms prop_i_square)

lemma floyd_square:
  assumes "square n d"
  shows "square n (floyd infty n d)"
  unfolding floyd_def
  by (rule fold_upt_inv [where P = "\<lambda>m s. square n s"]) (simp_all add: assms solve_k_square)

lemma fold_decreasing:
  assumes sq: "square n d"
    and step: "\<And>m t. m < n \<Longrightarrow> square n t \<Longrightarrow>
                 square n (f m t) \<and> (\<forall>p<n. \<forall>q<n. f m t ! p ! q \<le> t ! p ! q)"
  shows "\<forall>p<n. \<forall>q<n. fold f [0..<n] d ! p ! q \<le> (d ! p ! q :: int)"
proof -
  have "square n (fold f [0..<n] d) \<and> (\<forall>p<n. \<forall>q<n. fold f [0..<n] d ! p ! q \<le> d ! p ! q)"
  proof (rule fold_upt_inv [where P = "\<lambda>m s. square n s \<and> (\<forall>p<n. \<forall>q<n. s ! p ! q \<le> d ! p ! q)"])
    show "square n d \<and> (\<forall>p<n. \<forall>q<n. d ! p ! q \<le> d ! p ! q)" using sq by simp
  next
    fix m t assume m: "m < n" and t: "square n t \<and> (\<forall>p<n. \<forall>q<n. t ! p ! q \<le> d ! p ! q)"
    from step [OF m] t have s: "square n (f m t)"
      and l: "\<forall>p<n. \<forall>q<n. f m t ! p ! q \<le> t ! p ! q" by simp_all
    have "\<forall>p<n. \<forall>q<n. f m t ! p ! q \<le> d ! p ! q"
    proof (intro allI impI)
      fix p q assume "p < n" "q < n"
      then have "f m t ! p ! q \<le> t ! p ! q" "t ! p ! q \<le> d ! p ! q" using l t by simp_all
      then show "f m t ! p ! q \<le> d ! p ! q" by (rule order_trans)
    qed
    with s show "square n (f m t) \<and> (\<forall>p<n. \<forall>q<n. f m t ! p ! q \<le> d ! p ! q)" by simp
  qed
  then show ?thesis by simp
qed

lemma solve_k_le:
  assumes sq: "square n d" and k: "k < n"
  shows "\<forall>p<n. \<forall>q<n. solve_k infty n k d ! p ! q \<le> d ! p ! q"
  unfolding solve_k_def
  by (rule fold_decreasing [OF sq]) (simp add: solve_i_square solve_i_nth k)

lemma propagate_le:
  assumes sq: "square n d" and v: "v < n"
  shows "\<forall>p<n. \<forall>q<n. propagate infty n u v w d ! p ! q \<le> d ! p ! q"
  unfolding propagate_def
  by (rule fold_decreasing [OF sq]) (simp add: prop_i_square prop_i_nth v)

lemma floyd_le:
  assumes sq: "square n d"
  shows "\<forall>p<n. \<forall>q<n. floyd infty n d ! p ! q \<le> d ! p ! q"
  unfolding floyd_def
  by (rule fold_decreasing [OF sq]) (simp add: solve_k_square solve_k_le)

lemma add_edge_well_formed: "well_formed e \<Longrightarrow> well_formed (snd (add_edge e u v w p))"
  by (auto simp: well_formed_def add_edge_def Let_def set_entry_square propagate_square)

lemma solve_well_formed: "well_formed e \<Longrightarrow> well_formed (snd (solve e))"
  by (auto simp: well_formed_def solve_def Let_def floyd_square)

lemma init_well_formed: "init num_v infty = Inr e \<Longrightarrow> well_formed e"
  by (auto simp: init_def well_formed_def square_def list_all_length split: if_splits)

lemma step_well_formed: "well_formed e \<Longrightarrow> well_formed (step e c)"
  by (cases c) (simp_all add: add_edge_well_formed solve_well_formed dist_def has_negative_cycle_def)

lemma run_well_formed: "well_formed e \<Longrightarrow> well_formed (run e cs)"
  by (induction cs arbitrary: e) (simp_all add: run_def step_well_formed)

lemma add_edge_le:
  assumes wf: "well_formed e" and i: "i < nat (fw_n e)" and j: "j < nat (fw_n e)"
  shows "fw_dist (snd (add_edge e u v w p)) ! i ! j \<le> fw_dist e ! i ! j"
proof -
  let ?n = "nat (fw_n e)"
  have sq: "square ?n (fw_dist e)" using wf by (simp add: well_formed_def)
  show ?thesis
  proof (cases "0 \<le> u \<and> u < fw_n e \<and> 0 \<le> v \<and> v < fw_n e \<and> w < fw_dist e ! nat u ! nat v")
    case False
    then show ?thesis by (auto simp: add_edge_def Let_def)
  next
    case True
    then have u: "nat u < ?n" and v: "nat v < ?n" by simp_all
    let ?d1 = "set_entry (fw_dist e) (nat u) (nat v) w"
    have sq1: "square ?n ?d1" using sq by (rule set_entry_square)
    have le1: "?d1 ! i ! j \<le> fw_dist e ! i ! j"
      using sq u v i j True by (simp add: set_entry_nth)
    have le2: "propagate (fw_inf e) ?n (nat u) (nat v) w ?d1 ! i ! j \<le> ?d1 ! i ! j"
      using propagate_le [OF sq1 v] i j by simp
    show ?thesis using le1 le2 by (auto simp: add_edge_def Let_def)
  qed
qed

lemma solve_le:
  assumes wf: "well_formed e" and i: "i < nat (fw_n e)" and j: "j < nat (fw_n e)"
  shows "fw_dist (snd (solve e)) ! i ! j \<le> fw_dist e ! i ! j"
  using assms floyd_le [of "nat (fw_n e)" "fw_dist e" "fw_inf e"]
  by (auto simp: solve_def Let_def well_formed_def)

lemma step_le:
  assumes "well_formed e" "i < nat (fw_n e)" "j < nat (fw_n e)"
  shows "fw_dist (step e c) ! i ! j \<le> fw_dist e ! i ! j"
  using assms by (cases c) (simp_all add: add_edge_le solve_le dist_def has_negative_cycle_def)

lemma run_le:
  assumes "well_formed e" "i < nat (fw_n e)" "j < nat (fw_n e)"
  shows "fw_dist (run e cs) ! i ! j \<le> fw_dist e ! i ! j"
  using assms
proof (induction cs arbitrary: e)
  case Nil
  then show ?case by (simp add: run_Nil)
next
  case (Cons c cs)
  have "fw_dist (run (step e c) cs) ! i ! j \<le> fw_dist (step e c) ! i ! j"
    using Cons.prems by (intro Cons.IH) (simp_all add: step_well_formed step_n_inf)
  also have "\<dots> \<le> fw_dist e ! i ! j" using Cons.prems by (rule step_le)
  finally show ?case by (simp add: run_Cons)
qed

section \<open>What the loops guarantee\<close>







section \<open>The propagation against its description\<close>

lemma take_drop_update:
  "m < length X \<Longrightarrow> length X = length Y \<Longrightarrow>
   (take m X @ drop m Y)[m := X ! m] = take (Suc m) X @ drop (Suc m) Y"
  by (intro nth_equalityI) (auto simp: nth_append nth_list_update less_Suc_eq)

lemma take_drop_same:
  "m < length X \<Longrightarrow> length X = length Y \<Longrightarrow> Y ! m = X ! m \<Longrightarrow>
   take m X @ drop m Y = take (Suc m) X @ drop (Suc m) Y"
  by (intro nth_equalityI) (auto simp: nth_append less_Suc_eq)

lemma relax_spec_length: "length (relax_spec infty n u v w d) = n"
  by (simp add: relax_spec_def)

lemma relax_spec_row:
  assumes sq: "square n d" and i: "i < n" and v: "v < n"
  shows "relax_spec infty n u v w d ! i =
           (if d ! i ! u = infty then d ! i
            else row_relax infty (d ! i ! u + w) (d ! v) (d ! i))"
proof -
  have li: "length (d ! i) = n" and lv: "length (d ! v) = n"
    using sq i v by (simp_all add: square_nth)
  show ?thesis
    using i li lv
    by (intro nth_equalityI)
       (auto simp: relax_spec_def length_row_relax nth_row_relax min_def add.assoc)
qed

lemma relax_spec_row_v:
  assumes sq: "square n d" and v: "v < n"
    and nc: "d ! v ! u = infty \<or> 0 \<le> d ! v ! u + w"
  shows "relax_spec infty n u v w d ! v = d ! v"
proof -
  have lv: "length (d ! v) = n" using sq v by (simp add: square_nth)
  show ?thesis
    using v lv nc
    by (intro nth_equalityI) (auto simp: relax_spec_def min_def)
qed

lemma propagate_eq_spec:
  assumes sq: "square n d" and v: "v < n"
    and nc: "d ! v ! u = infty \<or> 0 \<le> d ! v ! u + w"
  shows "propagate infty n u v w d = relax_spec infty n u v w d"
proof -
  let ?R = "relax_spec infty n u v w d"
  have lR: "length ?R = n" by (rule relax_spec_length)
  have ld: "length d = n" using sq by (rule square_len)
  have "propagate infty n u v w d = take n ?R @ drop n d"
    unfolding propagate_def
  proof (rule fold_upt_inv [where P = "\<lambda>m s. s = take m ?R @ drop m d"])
    show "d = take 0 ?R @ drop 0 d" by simp
  next
    fix m t assume m: "m < n" and t: "t = take m ?R @ drop m d"
    have tm: "t ! m = d ! m" using t m lR ld by (simp add: nth_append)
    have tv: "t ! v = d ! v"
      using t m v lR ld relax_spec_row_v [OF sq v nc] by (auto simp: nth_append)
    have sqt: "square n t"
      unfolding square_def
    proof (intro conjI)
      show "length t = n" using t m lR ld by simp
      show "list_all (\<lambda>r. length r = n) t"
        unfolding list_all_length
      proof (intro allI impI)
        fix a assume "a < length t"
        then have a: "a < n" using t m lR ld by simp
        have "t ! a = ?R ! a \<or> t ! a = d ! a"
          using t a m lR ld by (auto simp: nth_append)
        moreover have "length (?R ! a) = n" using a by (simp add: relax_spec_def)
        moreover have "length (d ! a) = n" using sq a by (simp add: square_nth)
        ultimately show "length (t ! a) = n" by auto
      qed
    qed
    have Rm: "?R ! m = (if d ! m ! u = infty then d ! m
                        else row_relax infty (d ! m ! u + w) (d ! v) (d ! m))"
      using sq m v by (rule relax_spec_row)
    show "prop_i infty n u v w m t = take (Suc m) ?R @ drop (Suc m) d"
    proof (cases "d ! m ! u = infty")
      case True
      then have "prop_i infty n u v w m t = t" using tm by (simp add: prop_i_def)
      moreover have "d ! m = ?R ! m" using True Rm by simp
      ultimately show ?thesis using t take_drop_same [of m ?R d] m lR ld by simp
    next
      case False
      then have "prop_i infty n u v w m t = t[m := ?R ! m]"
        using prop_i_closed [OF sqt m v, of infty u w] tm tv Rm by simp
      then show ?thesis using t take_drop_update [of m ?R d] m lR ld by simp
    qed
  qed
  then show ?thesis using lR ld by simp
qed

section \<open>Walks: cutting, shortening, shortest walks\<close>






lemma walk_end_range: "in_range n S \<Longrightarrow> i < n \<Longrightarrow> walk S i P j \<Longrightarrow> j < n"
  by (induction P arbitrary: i) (auto simp: in_range_def)


lemma shortest_walk: "shortest S i P j \<Longrightarrow> walk S i P j"
  by (simp add: shortest_def)





















section \<open>The invariants of the matrix\<close>













section \<open>The invariant along the calls\<close>
















section \<open>The stale gate\<close>

text \<open>
  C4, as stated: after any \<open>add_edge\<close> with \<open>update_dists=False\<close> the three guarded
  operations raise until \<open>solve\<close>. It fails when the insertion does not improve the direct
  cost: on a fresh engine, \<open>add_edge(0, 0, 5)\<close> returns at line 114 before the flag is set,
  and \<open>dist\<close>, \<open>has_negative_cycle\<close> and \<open>add_edge(0, 1, 3, update_dists=True)\<close> all
  succeed.
\<close>

theorem stale_gate_counterexample:
  "fst (add_edge (projr (init 2 10)) 0 0 5 False) = Inr () \<and>
   fst (dist (snd (add_edge (projr (init 2 10)) 0 0 5 False))) = Inr [[0, 10], [10, 0]] \<and>
   fst (has_negative_cycle (snd (add_edge (projr (init 2 10)) 0 0 5 False))) = Inr False \<and>
   fst (add_edge (snd (add_edge (projr (init 2 10)) 0 0 5 False)) 0 1 3 True) = Inr ()"
  by (simp add: init_def add_edge_def dist_def has_negative_cycle_def upt_rec Let_def)

text \<open>
  C4, amended: on a well-formed engine, after an \<open>add_edge\<close> with \<open>update_dists=False\<close> that lowers the direct
  cost (or that is applied to an engine that is stale already), and after any further calls
  other than \<open>solve\<close>, \<open>dist\<close> and \<open>has_negative_cycle\<close> raise \<open>RuntimeError\<close>, and so does
  \<open>add_edge(update_dists=True)\<close> with arguments that pass the assertions; after \<open>solve\<close>
  the three succeed.
\<close>

theorem stale_gate:
  assumes wf: "well_formed e"
    and pre: "0 \<le> u" "u < fw_n e" "0 \<le> v" "v < fw_n e" "w < fw_inf e"
    and relax: "w < fw_dist e ! nat u ! nat v \<or> fw_needs_solve e"
    and cs: "Solve \<notin> set cs"
    and pos: "0 < fw_inf e"
  shows "fst (add_edge e u v w False) = Inr () \<and>
         fst (dist (run (snd (add_edge e u v w False)) cs)) = Inl RuntimeError \<and>
         fst (has_negative_cycle (run (snd (add_edge e u v w False)) cs)) = Inl RuntimeError \<and>
         (0 \<le> u' \<and> u' < fw_n e \<and> 0 \<le> v' \<and> v' < fw_n e \<and> w' < fw_inf e \<longrightarrow>
            fst (add_edge (run (snd (add_edge e u v w False)) cs) u' v' w' True)
              = Inl RuntimeError \<and>
            fst (add_edge (snd (solve (run (snd (add_edge e u v w False)) cs))) u' v' w' True)
              = Inr ()) \<and>
         fst (dist (snd (solve (run (snd (add_edge e u v w False)) cs))))
           = fst (solve (run (snd (add_edge e u v w False)) cs)) \<and>
         fst (solve (run (snd (add_edge e u v w False)) cs))
           = Inr (fw_dist (snd (solve (run (snd (add_edge e u v w False)) cs)))) \<and>
         (\<exists>b. fst (has_negative_cycle (snd (solve (run (snd (add_edge e u v w False)) cs))))
                = Inr b)"
proof -
  let ?e1 = "snd (add_edge e u v w False)"
  let ?e2 = "run ?e1 cs"
  let ?e3 = "snd (solve ?e2)"
  have ok: "fst (add_edge e u v w False) = Inr ()"
    using pre by (simp add: add_edge_def Let_def)
  have s1: "fw_needs_solve ?e1"
    using pre relax by (auto simp: add_edge_def Let_def)
  have s2: "fw_needs_solve ?e2"
    using s1 cs by (rule run_stale)
  have n2: "fw_n ?e2 = fw_n e" "fw_inf ?e2 = fw_inf e"
    by (simp_all add: run_n_inf add_edge_n_inf)
  have n3: "fw_n ?e3 = fw_n e" "fw_inf ?e3 = fw_inf e"
    by (simp_all add: solve_n_inf n2)
  have v3: "\<not> fw_needs_solve ?e3"
    using pos n2 by (simp add: solve_def Let_def)
  have a: "fst (dist ?e2) = Inl RuntimeError"
    using s2 by (simp add: dist_def)
  have b: "fst (has_negative_cycle ?e2) = Inl RuntimeError"
    using s2 by (simp add: has_negative_cycle_def)
  have c: "0 \<le> u' \<and> u' < fw_n e \<and> 0 \<le> v' \<and> v' < fw_n e \<and> w' < fw_inf e \<longrightarrow>
            fst (add_edge ?e2 u' v' w' True) = Inl RuntimeError \<and>
            fst (add_edge ?e3 u' v' w' True) = Inr ()"
    using s2 v3 n2 n3 by (simp add: add_edge_def Let_def)
  have d: "fst (solve ?e2) = Inr (fw_dist ?e3)"
    using pos n2 by (simp add: solve_def Let_def)
  have f: "fst (dist ?e3) = fst (solve ?e2)"
    using v3 d by (simp add: dist_def)
  have g: "\<exists>b. fst (has_negative_cycle ?e3) = Inr b"
    using v3 by (simp add: has_negative_cycle_def)
  from ok a b c d f g show ?thesis by blast
qed

theorem stale_gate_witness:
  "fst (dist (run (snd (add_edge (projr (init 2 10)) 0 1 5 False))
                  [InsertEdge 1 0 4 False, Distances])) = Inl RuntimeError \<and>
   fst (add_edge (run (snd (add_edge (projr (init 2 10)) 0 1 5 False))
                  [InsertEdge 1 0 4 False, Distances]) 0 1 3 True) = Inl RuntimeError \<and>
   fst (add_edge (snd (solve (run (snd (add_edge (projr (init 2 10)) 0 1 5 False))
                  [InsertEdge 1 0 4 False, Distances]))) 0 1 3 True) = Inr ()"
proof -
  have wf: "well_formed (projr (init 2 10))"
    by (simp add: init_def well_formed_def square_def upt_rec)
  show ?thesis
    using stale_gate [OF wf, of 0 1 5 "[InsertEdge 1 0 4 False, Distances]" 0 1 3]
    by (simp add: init_def upt_rec)
qed

section \<open>Failing calls, no-ops and idempotence\<close>

text \<open>
  C5: a call that raises leaves the engine as it was. On a well-formed engine \<open>add_edge\<close>
  raises exactly when an
  index is out of range or the weight is not below the sentinel (\<open>AssertionError\<close>), or
  when \<open>update_dists=True\<close> meets a stale matrix (\<open>RuntimeError\<close>); \<open>dist\<close>,
  \<open>has_negative_cycle\<close> and \<open>solve\<close> change nothing when they raise.
\<close>

theorem failed_call_state_unchanged:
  "(fst (add_edge e u v w p) = Inl err \<longrightarrow> snd (add_edge e u v w p) = e) \<and>
   (fst (dist e) = Inl err \<longrightarrow> snd (dist e) = e) \<and>
   (fst (has_negative_cycle e) = Inl err \<longrightarrow> snd (has_negative_cycle e) = e) \<and>
   (fst (solve e) = Inl err \<longrightarrow> snd (solve e) = e) \<and>
   (well_formed e \<longrightarrow>
      fst (add_edge e u v w p) =
        (if \<not> (0 \<le> u \<and> u < fw_n e) \<or> \<not> (0 \<le> v \<and> v < fw_n e) \<or> \<not> w < fw_inf e
         then Inl AssertionError
         else if p \<and> fw_needs_solve e then Inl RuntimeError else Inr ()))"
  by (simp add: add_edge_def dist_def has_negative_cycle_def solve_def Let_def)

theorem failed_call_state_unchanged_witness:
  "fst (add_edge \<lparr>fw_n = 2, fw_inf = 10, fw_dist = [[0, 5], [10, 0]], fw_needs_solve = True\<rparr>
          0 1 3 True) = Inl RuntimeError \<and>
   snd (add_edge \<lparr>fw_n = 2, fw_inf = 10, fw_dist = [[0, 5], [10, 0]], fw_needs_solve = True\<rparr>
          0 1 3 True)
     = \<lparr>fw_n = 2, fw_inf = 10, fw_dist = [[0, 5], [10, 0]], fw_needs_solve = True\<rparr>"
proof -
  have "well_formed \<lparr>fw_n = 2, fw_inf = 10, fw_dist = [[0, 5], [10, 0]],
                      fw_needs_solve = True\<rparr>"
    by (simp add: well_formed_def square_def)
  then show ?thesis
    using failed_call_state_unchanged
      [of "\<lparr>fw_n = 2, fw_inf = 10, fw_dist = [[0, 5], [10, 0]], fw_needs_solve = True\<rparr>"
          0 1 3 True RuntimeError]
    by simp
qed

text \<open>
  C6: on a well-formed up-to-date engine, an \<open>add_edge\<close> whose arguments pass the assertions and
  whose weight is not below \<open>dist[u][v]\<close> returns normally and changes neither the matrix
  nor the flag, whatever \<open>update_dists\<close> is.
\<close>

theorem non_improving_insert_noop:
  "well_formed e \<Longrightarrow> \<not> fw_needs_solve e \<Longrightarrow> 0 \<le> u \<Longrightarrow> u < fw_n e \<Longrightarrow> 0 \<le> v \<Longrightarrow> v < fw_n e \<Longrightarrow>
   w < fw_inf e \<Longrightarrow> fw_dist e ! nat u ! nat v \<le> w \<Longrightarrow>
   add_edge e u v w p = (Inr (), e)"
  by (simp add: add_edge_def)

theorem non_improving_insert_noop_witness:
  "add_edge \<lparr>fw_n = 2, fw_inf = 10, fw_dist = [[0, 5], [10, 0]], fw_needs_solve = False\<rparr>
      0 1 7 True
   = (Inr (), \<lparr>fw_n = 2, fw_inf = 10, fw_dist = [[0, 5], [10, 0]], fw_needs_solve = False\<rparr>)"
proof -
  have wf: "well_formed \<lparr>fw_n = 2, fw_inf = 10, fw_dist = [[0, 5], [10, 0]],
                          fw_needs_solve = False\<rparr>"
    by (simp add: well_formed_def square_def)
  show ?thesis using non_improving_insert_noop [OF wf, of 0 1 7 True] by simp
qed

text \<open>
  C7: on a well-formed engine \<open>solve\<close> is idempotent: a second call in a row returns what the first returned and
  leaves the engine as the first left it; on an up-to-date engine \<open>solve\<close> changes nothing
  and returns the matrix.
\<close>

theorem solve_idempotent:
  "well_formed e \<Longrightarrow>
   solve (snd (solve e)) = solve e \<and>
   (\<not> fw_needs_solve e \<longrightarrow> snd (solve e) = e \<and>
      (0 < fw_inf e \<longrightarrow> fst (solve e) = Inr (fw_dist e)))"
  by (simp add: solve_def Let_def)

theorem solve_idempotent_witness:
  "solve (snd (solve \<lparr>fw_n = 2, fw_inf = 10, fw_dist = [[0, 5], [10, 0]], fw_needs_solve = False\<rparr>))
     = solve \<lparr>fw_n = 2, fw_inf = 10, fw_dist = [[0, 5], [10, 0]], fw_needs_solve = False\<rparr> \<and>
   solve \<lparr>fw_n = 2, fw_inf = 10, fw_dist = [[0, 5], [10, 0]], fw_needs_solve = False\<rparr>
     = (Inr [[0, 5], [10, 0]],
        \<lparr>fw_n = 2, fw_inf = 10, fw_dist = [[0, 5], [10, 0]], fw_needs_solve = False\<rparr>)"
proof -
  have wf: "well_formed \<lparr>fw_n = 2, fw_inf = 10, fw_dist = [[0, 5], [10, 0]],
                          fw_needs_solve = False\<rparr>"
    by (simp add: well_formed_def square_def)
  show ?thesis using solve_idempotent [OF wf] by (simp add: prod_eq_iff)
qed

section \<open>Negative cycle detection\<close>

text \<open>
  C8: on a well-formed up-to-date engine \<open>has_negative_cycle\<close> returns whether some vertex \<open>v\<close> below
  \<open>_n\<close> has \<open>dist[v][v] < 0\<close>. On three vertices, for any sentinel above the weights, the
  cycle with weights 1, 1, -3 gives \<open>True\<close> after \<open>solve\<close> and the cycle with weights
  1, 1, 1 gives \<open>False\<close>.
\<close>

theorem has_negative_cycle_iff:
  "(well_formed e \<and> \<not> fw_needs_solve e \<longrightarrow>
      has_negative_cycle e = (Inr (\<exists>v < nat (fw_n e). fw_dist e ! v ! v < 0), e)) \<and>
   (1 < infty \<longrightarrow>
      fst (has_negative_cycle (run (projr (init 3 infty))
         [InsertEdge 0 1 1 False, InsertEdge 1 2 1 False, InsertEdge 2 0 (- 3) False, Solve]))
        = Inr True \<and>
      fst (has_negative_cycle (run (projr (init 3 infty))
         [InsertEdge 0 1 1 False, InsertEdge 1 2 1 False, InsertEdge 2 0 1 False, Solve]))
        = Inr False)"
proof -
  have a: "well_formed e \<and> \<not> fw_needs_solve e \<longrightarrow>
      has_negative_cycle e = (Inr (\<exists>v < nat (fw_n e). fw_dist e ! v ! v < 0), e)"
    by (auto simp: has_negative_cycle_def list_ex_iff)
  from a neg_cycle_example_3 pos_cycle_example_3 show ?thesis by blast
qed

theorem has_negative_cycle_iff_witness:
  "has_negative_cycle \<lparr>fw_n = 2, fw_inf = 10, fw_dist = [[0, 5], [- 7, - 2]],
                         fw_needs_solve = False\<rparr>
     = (Inr True, \<lparr>fw_n = 2, fw_inf = 10, fw_dist = [[0, 5], [- 7, - 2]],
                      fw_needs_solve = False\<rparr>) \<and>
   fst (has_negative_cycle (run (projr (init 3 1000000000))
         [InsertEdge 0 1 1 False, InsertEdge 1 2 1 False, InsertEdge 2 0 (- 3) False, Solve]))
        = Inr True \<and>
   fst (has_negative_cycle (run (projr (init 3 1000000000))
         [InsertEdge 0 1 1 False, InsertEdge 1 2 1 False, InsertEdge 2 0 1 False, Solve]))
        = Inr False"
proof -
  have "\<exists>v<nat 2. [[0, 5], [- 7, - 2::int]] ! v ! v < 0"
    by (rule exI [of _ 1]) simp
  moreover have "well_formed \<lparr>fw_n = 2, fw_inf = 10, fw_dist = [[0, 5], [- 7, - 2]],
                               fw_needs_solve = False\<rparr>"
    by (simp add: well_formed_def square_def)
  ultimately show ?thesis
    using has_negative_cycle_iff
      [of "\<lparr>fw_n = 2, fw_inf = 10, fw_dist = [[0, 5], [- 7, - 2]], fw_needs_solve = False\<rparr>"
          1000000000]
    by simp
qed


section \<open>Entries only decrease and stay at most the sentinel\<close>

text \<open>
  C9: on a well-formed engine, every entry of the matrix after \<open>add_edge\<close> (whatever its
  arguments, whether it relaxes, propagates, does nothing or raises) and after \<open>solve\<close> is
  at most its value before the call.
\<close>

theorem entries_never_increase:
  assumes "well_formed e" "i < nat (fw_n e)" "j < nat (fw_n e)"
  shows "fw_dist (snd (add_edge e u v w p)) ! i ! j \<le> fw_dist e ! i ! j \<and>
         fw_dist (snd (solve e)) ! i ! j \<le> fw_dist e ! i ! j"
  using assms by (simp add: add_edge_le solve_le)


theorem entries_never_increase_witness:
  "well_formed \<lparr>fw_n = 2, fw_inf = 10, fw_dist = [[0, 1], [10, 0]], fw_needs_solve = False\<rparr> \<and>
   fw_dist (snd (add_edge \<lparr>fw_n = 2, fw_inf = 10, fw_dist = [[0, 1], [10, 0]],
                            fw_needs_solve = False\<rparr> 1 0 (- 3) True)) ! 1 ! 0 \<le> 10 \<and>
   fw_dist (snd (solve \<lparr>fw_n = 2, fw_inf = 10, fw_dist = [[0, 1], [10, 0]],
                          fw_needs_solve = False\<rparr>)) ! 1 ! 0 \<le> 10"
proof -
  have wf: "well_formed \<lparr>fw_n = 2, fw_inf = 10, fw_dist = [[0, 1], [10, 0]],
                          fw_needs_solve = False\<rparr>"
    by (simp add: well_formed_def square_def)
  show ?thesis
    using wf entries_never_increase [OF wf, of 1 0 1 0 "- 3" True] by simp
qed

text \<open>
  C10: in every state reached from the constructor by any sequence of calls, every entry of
  the matrix is at most the sentinel: it is the sentinel or lies strictly below it.
\<close>

theorem entries_at_most_sentinel:
  assumes init: "init num_v infty = Inr e0" and i: "i < nat num_v" and j: "j < nat num_v"
  shows "fw_dist (run e0 cs) ! i ! j \<le> fw_inf (run e0 cs) \<and>
         (fw_dist (run e0 cs) ! i ! j = infty \<or> fw_dist (run e0 cs) ! i ! j < infty) \<and>
         fw_inf (run e0 cs) = infty"
proof -
  have e0: "fw_n e0 = num_v" "fw_inf e0 = infty" "0 < infty"
    using init by (auto simp: init_def split: if_splits)
  have "fw_dist e0 ! i ! j \<le> infty"
    using init i j by (auto simp: init_def split: if_splits)
  moreover have "fw_dist (run e0 cs) ! i ! j \<le> fw_dist e0 ! i ! j"
    using init_well_formed [OF init] i j e0 by (intro run_le) simp_all
  ultimately show ?thesis using e0 by (auto simp: run_n_inf)
qed

theorem entries_at_most_sentinel_witness:
  "fw_dist (run (projr (init 3 10)) [InsertEdge 0 1 9 False, InsertEdge 1 2 9 False, Solve])
     ! 0 ! 2 \<le> 10"
  using entries_at_most_sentinel [of 3 10 "projr (init 3 10)" 0 2
      "[InsertEdge 0 1 9 False, InsertEdge 1 2 9 False, Solve]"]
  by (simp add: init_def)


section \<open>One propagated relaxation\<close>

text \<open>
  C3, as stated: the matrix after \<open>add_edge(u, v, w, update_dists=True)\<close> is the matrix
  with \<open>dist[u][v] = w\<close> in which every entry \<open>(i, j)\<close> with \<open>dist[i][u]\<close> and
  \<open>dist[v][j]\<close> off the sentinel is replaced by the minimum with
  \<open>dist[i][u] + w + dist[v][j]\<close>. It fails when the new edge closes a negative cycle: with
  the edge 0 -> 1 of weight 1 propagated on two vertices, \<open>add_edge(1, 0, -3, True)\<close>
  lowers row 0 first, and row 1 is then computed from the lowered row 0.
\<close>

theorem propagate_spec_counterexample:
  "fst (add_edge (snd (add_edge (projr (init 2 10)) 0 1 1 True)) 1 0 (- 3) True) = Inr () \<and>
   fw_dist (snd (add_edge (projr (init 2 10)) 0 1 1 True)) = [[0, 1], [10, 0]] \<and>
   fw_dist (snd (add_edge (snd (add_edge (projr (init 2 10)) 0 1 1 True)) 1 0 (- 3) True))
     = [[- 2, - 1], [- 5, - 4]] \<and>
   relax_spec 10 2 1 0 (- 3)
      (set_entry (fw_dist (snd (add_edge (projr (init 2 10)) 0 1 1 True))) 1 0 (- 3))
     = [[- 2, - 1], [- 3, - 2]]"
  by (simp add: init_def add_edge_def set_entry_def propagate_def prop_i_def prop_j_def
      relax_spec_def upt_rec Let_def)


text \<open>
  Reading the description as a loop that reads the matrix anew at every pair does not
  rescue it: the source holds \<open>dist[i][u] + weight\<close> in \<open>tmp\<close> for a whole row, so with
  the edge 1 -> 0 of weight 1 propagated, \<open>add_edge(0, 1, -3, True)\<close> gives
  \<open>dist[0][1] = -3\<close> where that loop would store -5.
\<close>

lemma propagate_seq_example:
  "fw_dist (snd (add_edge (projr (init 2 10)) 1 0 1 True)) = [[0, 10], [1, 0]] \<and>
   fw_dist (snd (add_edge (snd (add_edge (projr (init 2 10)) 1 0 1 True)) 0 1 (- 3) True))
     = [[- 2, - 3], [- 1, - 2]] \<and>
   relax_seq 10 2 0 1 (- 3)
      (set_entry (fw_dist (snd (add_edge (projr (init 2 10)) 1 0 1 True))) 0 1 (- 3))
     = [[- 2, - 5], [- 1, - 4]]"
  by (simp add: init_def add_edge_def set_entry_def propagate_def prop_i_def prop_j_def
      relax_seq_def relax_seq_step_def upt_rec Let_def)

text \<open>
  C3, amended: on a well-formed up-to-date engine, with arguments that pass the assertions
  and \<open>w < dist[u][v]\<close>, and provided the new edge closes no negative cycle with the
  distances already known (\<open>dist[v][u]\<close> is the sentinel or \<open>dist[v][u] + w >= 0\<close>; for
  \<open>u = v\<close>, \<open>w >= 0\<close>), the call returns normally, the matrix becomes the one described
  and nothing else in the engine changes: it stays up to date.
\<close>

theorem propagate_matches_spec:
  assumes wf: "well_formed e" and valid: "\<not> fw_needs_solve e"
    and u: "0 \<le> u" "u < fw_n e" and v: "0 \<le> v" "v < fw_n e"
    and w: "w < fw_inf e" "w < fw_dist e ! nat u ! nat v"
    and nc: "if u = v then 0 \<le> w
             else fw_dist e ! nat v ! nat u = fw_inf e \<or> 0 \<le> fw_dist e ! nat v ! nat u + w"
  shows "add_edge e u v w True =
           (Inr (), e\<lparr>fw_dist := relax_spec (fw_inf e) (nat (fw_n e)) (nat u) (nat v) w
                                   (set_entry (fw_dist e) (nat u) (nat v) w)\<rparr>)"
proof -
  let ?n = "nat (fw_n e)"
  let ?d1 = "set_entry (fw_dist e) (nat u) (nat v) w"
  have sq: "square ?n (fw_dist e)" using wf by (simp add: well_formed_def)
  have sq1: "square ?n ?d1" using sq by (rule set_entry_square)
  have un: "nat u < ?n" and vn: "nat v < ?n" using u v by simp_all
  have d1vu: "?d1 ! nat v ! nat u = (if u = v then w else fw_dist e ! nat v ! nat u)"
  proof -
    have eq: "nat v = nat u \<longleftrightarrow> u = v"
      using u(1) v(1) eq_nat_nat_iff [of v u] by blast
    have "?d1 ! nat v ! nat u =
            (if nat v = nat u \<and> nat u = nat v then w else fw_dist e ! nat v ! nat u)"
      using sq un vn vn un by (rule set_entry_nth)
    then show ?thesis using eq by simp
  qed
  have nc1: "?d1 ! nat v ! nat u = fw_inf e \<or> 0 \<le> ?d1 ! nat v ! nat u + w"
    using nc d1vu by (auto split: if_splits)
  have "propagate (fw_inf e) ?n (nat u) (nat v) w ?d1
          = relax_spec (fw_inf e) ?n (nat u) (nat v) w ?d1"
    using sq1 vn nc1 by (rule propagate_eq_spec)
  then show ?thesis using u v w valid by (simp add: add_edge_def Let_def)
qed

theorem propagate_matches_spec_witness:
  "add_edge \<lparr>fw_n = 3, fw_inf = 1000000000,
             fw_dist = [[0, 3, 7], [1000000000, 0, 4], [1000000000, 1000000000, 0]],
             fw_needs_solve = False\<rparr> 0 2 1 True
   = (Inr (), \<lparr>fw_n = 3, fw_inf = 1000000000,
                fw_dist = [[0, 3, 1], [1000000000, 0, 4], [1000000000, 1000000000, 0]],
                fw_needs_solve = False\<rparr>)"
proof -
  have wf: "well_formed \<lparr>fw_n = 3, fw_inf = 1000000000,
             fw_dist = [[0, 3, 7], [1000000000, 0, 4], [1000000000, 1000000000, 0]],
             fw_needs_solve = False\<rparr>"
    by (simp add: well_formed_def square_def)
  show ?thesis
    using propagate_matches_spec [OF wf, of 0 2 1]
    by (simp add: relax_spec_def set_entry_def upt_rec)
qed


section \<open>The full solve and the incremental updates\<close>







end
